theory Spec2Isabelle
  imports Main "HOL-Library.AList"
begin

section \<open>Data model of \<open>src/frontend/static/ui.js\<close>\<close>

text \<open>
  Conventions of the embedding.
  \<^item> A JavaScript string is a \<open>string\<close>; a character is a code point below 256.
  \<^item> A JavaScript object used as a dictionary (\<open>attributes\<close>, \<open>setAttr\<close>,
    \<open>removeListeners\<close>, \<open>addListeners\<close>) is the association list of its own properties
    in the order \<open>for ... in\<close> enumerates them. \<open>obj[k]\<close> is \<open>map_of obj k\<close>, where
    \<open>None\<close> is JavaScript's \<open>undefined\<close>; \<open>obj[k] = v\<close> is \<open>AList.update k v obj\<close>
    (an existing key keeps its place, a new key goes to the end). Keys of a JavaScript
    object are pairwise distinct. Only own properties are modelled, and no key is an
    array index (JavaScript enumerates those first).
  \<^item> \<open>'v\<close> is the type of attribute values (strings, and message values, which are
    objects); equality on \<open>'v\<close> is JavaScript's \<open>===\<close>. A stored value is never
    \<open>undefined\<close>.
  \<^item> A \<open>throw\<close> is a result \<open>Inl e\<close>; a normal return is \<open>Inr x\<close>.
\<close>

datatype 'v spec =
    Element string "(string \<times> 'v) list" "'v spec list"
  | Text string
  | Empty

datatype 'v elementDiff =
    Replace "'v spec"
  | Remove
  | Create "'v spec"
  | Modify "string list" "(string \<times> 'v) list" "(string \<times> 'v option) list"
      "(string \<times> 'v) list" "'v elementDiff list"
  | Noop

datatype error =
    TypeError
  | Error string
  | HierarchyRequestError

text \<open>Property reads on a spec: a property the object does not have reads \<open>undefined\<close>.\<close>

fun textContent :: "'v spec \<Rightarrow> string option" where
  "textContent (Text s) = Some s"
| "textContent (Element t as cs) = None"
| "textContent Empty = None"

fun emptySpec :: "'v spec \<Rightarrow> bool" where
  "emptySpec Empty = True"
| "emptySpec (Element t as cs) = False"
| "emptySpec (Text s) = False"

fun noop :: "'v elementDiff \<Rightarrow> bool" where
  "noop Noop = True"
| "noop (Replace s) = False"
| "noop Remove = False"
| "noop (Create s) = False"
| "noop (Modify ra sa rl al cs) = False"

section \<open>\<open>eventName\<close>\<close>

text \<open>\<open>str.indexOf(pat)\<close>: the first position at which \<open>pat\<close> occurs, or \<open>-1\<close>.\<close>

fun indexOfFrom :: "string \<Rightarrow> string \<Rightarrow> nat \<Rightarrow> int" where
  "indexOfFrom [] pat i = (if pat = [] then int i else - 1)"
| "indexOfFrom (c # cs) pat i =
     (if take (length pat) (c # cs) = pat then int i else indexOfFrom cs pat (Suc i))"

definition indexOf :: "string \<Rightarrow> string \<Rightarrow> int" where
  "indexOf str pat = indexOfFrom str pat 0"

text \<open>
  \<open>toLowerCase\<close> on code points below 256: \<open>A\<close>--\<open>Z\<close> and the Latin-1 capitals
  (192--222 except the multiplication sign 215) move up by 32.
\<close>

definition lowerChar :: "char \<Rightarrow> char" where
  "lowerChar c =
     (let n = (of_char c :: nat)
      in if (65 \<le> n \<and> n \<le> 90) \<or> (192 \<le> n \<and> n \<le> 222 \<and> n \<noteq> 215)
         then char_of (n + 32) else c)"

definition toLowerCase :: "string \<Rightarrow> string" where
  "toLowerCase str = map lowerChar str"

definition eventName :: "string \<Rightarrow> string option" where
  "eventName str =
     (if indexOf str ''on'' = 0 then Some (toLowerCase (drop 2 str)) else None)"

section \<open>The differ: \<open>diffOne\<close>, \<open>removeEmpty\<close>, \<open>diffList\<close>\<close>

definition removeEmpty :: "'v spec list \<Rightarrow> 'v spec list" where
  "removeEmpty els = filter (\<lambda>e. \<not> emptySpec e) els"

text \<open>
  Body of the first loop of \<open>diffOne\<close> (\<open>for (const attr in l.attributes)\<close>); the
  accumulator is \<open>(removeAttr, removeListeners)\<close>.
\<close>

definition removedStep ::
  "(string \<times> 'v) list \<Rightarrow> (string \<times> 'v) list \<Rightarrow>
   string list \<times> (string \<times> 'v option) list \<Rightarrow> string \<Rightarrow>
   string list \<times> (string \<times> 'v option) list" where
  "removedStep la ra acc attr =
     (case acc of (removeAttr, removeListeners) \<Rightarrow>
        if map_of ra attr = None then
          (case eventName attr of
             Some event \<Rightarrow> (removeAttr, AList.update event (map_of la attr) removeListeners)
           | None \<Rightarrow> (removeAttr @ [attr], removeListeners))
        else (removeAttr, removeListeners))"

text \<open>
  Body of the second loop (\<open>for (const attr in r.attributes)\<close>); the accumulator is
  \<open>(setAttr, removeListeners, addListeners)\<close>. \<open>attr\<close> is a key of \<open>ra\<close>, so
  \<open>r.attributes[attr]\<close> is defined; the \<open>None\<close> branch only makes the function total.
\<close>

definition changedStep ::
  "(string \<times> 'v) list \<Rightarrow> (string \<times> 'v) list \<Rightarrow>
   (string \<times> 'v) list \<times> (string \<times> 'v option) list \<times> (string \<times> 'v) list \<Rightarrow> string \<Rightarrow>
   (string \<times> 'v) list \<times> (string \<times> 'v option) list \<times> (string \<times> 'v) list" where
  "changedStep la ra acc attr =
     (case acc of (setAttr, removeListeners, addListeners) \<Rightarrow>
        (case map_of ra attr of
           None \<Rightarrow> (setAttr, removeListeners, addListeners)
         | Some v \<Rightarrow>
             if Some v \<noteq> map_of la attr then
               (case eventName attr of
                  None \<Rightarrow> (AList.update attr v setAttr, removeListeners, addListeners)
                | Some event \<Rightarrow>
                    (setAttr, AList.update event (map_of la attr) removeListeners,
                     AList.update event v addListeners))
             else (setAttr, removeListeners, addListeners)))"

text \<open>Size bounds for the termination of the differ and of \<open>create\<close>.\<close>

lemma size_removeEmpty: "size_list size (removeEmpty els) \<le> size_list size els"
  unfolding removeEmpty_def by (induction els) auto

lemma size_nth_less: "i < length xs \<Longrightarrow> size (xs ! i) < size_list size xs"
proof (induction xs arbitrary: i)
  case Nil
  then show ?case by simp
next
  case (Cons x xs)
  show ?case
  proof (cases i)
    case 0
    then show ?thesis by simp
  next
    case (Suc j)
    with Cons.prems have "j < length xs" by simp
    then have "size (xs ! j) < size_list size xs" by (rule Cons.IH)
    with Suc show ?thesis by simp
  qed
qed

text \<open>
  \<open>diffOne\<close>, \<open>diffList\<close> and the \<open>for\<close> loop of \<open>diffList\<close> (\<open>diffLoop\<close>, with the
  loop counter \<open>i\<close> and the array \<open>diffs\<close> built so far). Reading \<open>ls[i]\<close> beyond the
  end of an array gives \<open>undefined\<close>.

  A left operand \<open>Empty\<close> has neither \<open>textContent\<close> nor \<open>tag\<close>: against an element
  the tags differ; against a text or another \<open>Empty\<close> both tags are \<open>undefined\<close>, the two
  attribute loops run over \<open>undefined\<close> (no iteration) and \<open>removeEmpty(undefined)\<close>
  throws a \<open>TypeError\<close> in \<open>Array.from\<close>.
\<close>

function diffOne :: "'v spec \<Rightarrow> 'v spec \<Rightarrow> error + 'v elementDiff"
  and diffList :: "'v spec list \<Rightarrow> 'v spec list \<Rightarrow> error + 'v elementDiff list"
  and diffLoop :: "'v spec list \<Rightarrow> 'v spec list \<Rightarrow> nat \<Rightarrow> 'v elementDiff list \<Rightarrow>
                   error + 'v elementDiff list"
where
  "diffOne (Text s) r = Inr (if Some s \<noteq> textContent r then Replace r else Noop)"
| "diffOne (Element t la lc) (Element t' ra rc) =
     (if t \<noteq> t' then Inr (Replace (Element t' ra rc))
      else
        (case foldl (removedStep la ra) ([], []) (map fst la) of
           (removeAttr, removeListeners0) \<Rightarrow>
        (case foldl (changedStep la ra) ([], removeListeners0, []) (map fst ra) of
           (setAttr, removeListeners, addListeners) \<Rightarrow>
        (case diffList lc rc of
           Inl e \<Rightarrow> Inl e
         | Inr children \<Rightarrow>
             if list_all noop children \<and> (removeAttr = [] \<and> setAttr = [])
             then Inr Noop
             else Inr (Modify removeAttr setAttr removeListeners addListeners children)))))"
| "diffOne (Element t la lc) (Text s) = Inr (Replace (Text s))"
| "diffOne (Element t la lc) Empty = Inr (Replace Empty)"
| "diffOne Empty (Element t ra rc) = Inr (Replace (Element t ra rc))"
| "diffOne Empty (Text s) = Inl TypeError"
| "diffOne Empty Empty = Inl TypeError"
| "diffList ls_raw rs_raw = diffLoop (removeEmpty ls_raw) (removeEmpty rs_raw) 0 []"
| "diffLoop ls rs i diffs =
     (if i < max (length ls) (length rs) then
        (if length ls \<le> i then diffLoop ls rs (Suc i) (diffs @ [Create (rs ! i)])
         else if length rs \<le> i then diffLoop ls rs (Suc i) (diffs @ [Remove])
         else (case diffOne (ls ! i) (rs ! i) of
                 Inl e \<Rightarrow> Inl e
               | Inr d \<Rightarrow> diffLoop ls rs (Suc i) (diffs @ [d])))
      else Inr diffs)"
  by pat_completeness auto

termination
proof (relation "measures
    [\<lambda>x. case x of
        Inl (l, r) \<Rightarrow> 2 * size l
      | Inr (Inl (ls, rs)) \<Rightarrow> 2 * size_list size ls + 1
      | Inr (Inr (ls, rs, i, diffs)) \<Rightarrow> 2 * size_list size ls,
     \<lambda>x. case x of
        Inl (l, r) \<Rightarrow> 0
      | Inr (Inl (ls, rs)) \<Rightarrow> 0
      | Inr (Inr (ls, rs, i, diffs)) \<Rightarrow> max (length ls) (length rs) - i]",
    goal_cases)
  case 1
  show ?case by simp
next
  case (2 t la lc t' ra rc)
  show ?case by simp
next
  case (3 ls_raw rs_raw)
  have "size_list size (removeEmpty ls_raw) \<le> size_list size ls_raw"
    by (rule size_removeEmpty)
  then show ?case by simp
next
  case (4 ls rs i diffs)
  then show ?case by auto
next
  case (5 ls rs i diffs)
  then show ?case by auto
next
  case (6 ls rs i diffs)
  then have "i < length ls" by simp
  then have "size (ls ! i) < size_list size ls" by (rule size_nth_less)
  then show ?case by simp
next
  case (7 ls rs i diffs d)
  then show ?case by auto
qed


text \<open>
  Position \<open>j\<close> of the array that \<open>diffList\<close> returns for the filtered lists \<open>ls\<close> and
  \<open>rs\<close> (the expression pushed in iteration \<open>j\<close>), used to state what the loop computes.
\<close>

definition entry :: "'v spec list \<Rightarrow> 'v spec list \<Rightarrow> nat \<Rightarrow> 'v elementDiff" where
  "entry ls rs j =
     (if length ls \<le> j then Create (rs ! j)
      else if length rs \<le> j then Remove
      else projr (diffOne (ls ! j) (rs ! j)))"

section \<open>The live tree\<close>

text \<open>
  The DOM operations that \<open>ui.js\<close> calls, on a tree of element and text nodes.

  A registered listener is a pair of an event name and a callback. The callbacks that
  \<open>create\<close> and \<open>modify\<close> register are arrow functions \<open>() => enqueue(msg)\<close>, written
  \<open>Enqueue msg\<close>; every evaluation of the arrow function is a new object, known to
  nothing but the node it is registered on. \<open>Handler v\<close> is a value taken from a spec
  (\<open>None\<close> for \<open>undefined\<close>) handed to the DOM where it expects a callback.
\<close>

datatype 'v callback =
    Enqueue 'v
  | Handler "'v option"

datatype 'v node =
    ElementNode string "(string \<times> 'v) list" "(string \<times> 'v callback) list" "'v node list"
  | TextNode string "(string \<times> 'v callback) list"

fun childNodes :: "'v node \<Rightarrow> 'v node list" where
  "childNodes (ElementNode t as ls cs) = cs"
| "childNodes (TextNode s ls) = []"

fun listeners :: "'v node \<Rightarrow> (string \<times> 'v callback) list" where
  "listeners (ElementNode t as ls cs) = ls"
| "listeners (TextNode s ls) = ls"

fun setChildNodes :: "'v node \<Rightarrow> 'v node list \<Rightarrow> 'v node" where
  "setChildNodes (ElementNode t as ls cs) cs' = ElementNode t as ls cs'"
| "setChildNodes (TextNode s ls) cs' = TextNode s ls"

definition createTextNode :: "string \<Rightarrow> 'v node" where
  "createTextNode s = TextNode s []"

definition createElement :: "string \<Rightarrow> 'v node" where
  "createElement t = ElementNode t [] [] []"

text \<open>
  \<open>setAttribute\<close> and \<open>removeAttribute\<close> exist on elements only: on a text node the
  property is \<open>undefined\<close> and the call throws a \<open>TypeError\<close>. The DOM stores the
  string of the value; the value of an attribute that is not an event binding is a
  string.
\<close>

fun setAttribute :: "'v node \<Rightarrow> string \<Rightarrow> 'v \<Rightarrow> error + 'v node" where
  "setAttribute (ElementNode t as ls cs) name v = Inr (ElementNode t (AList.update name v as) ls cs)"
| "setAttribute (TextNode s ls) name v = Inl TypeError"

fun removeAttribute :: "'v node \<Rightarrow> string \<Rightarrow> error + 'v node" where
  "removeAttribute (ElementNode t as ls cs) name = Inr (ElementNode t (AList.delete name as) ls cs)"
| "removeAttribute (TextNode s ls) name = Inl TypeError"

text \<open>
  \<open>addEventListener\<close> appends the listener unless the same callback object is already
  registered for the event; a fresh arrow function never is.
  \<open>removeEventListener\<close> removes the listener registered for the event with the
  callback object it is given, if there is one. The values handed to it are objects (or
  \<open>undefined\<close>): messages are compared by reference, as \<open>===\<close> compares them.
\<close>

fun addEventListener :: "'v node \<Rightarrow> string \<Rightarrow> 'v callback \<Rightarrow> 'v node" where
  "addEventListener (ElementNode t as ls cs) event cb = ElementNode t as (ls @ [(event, cb)]) cs"
| "addEventListener (TextNode s ls) event cb = TextNode s (ls @ [(event, cb)])"

fun removeEventListener :: "'v node \<Rightarrow> string \<Rightarrow> 'v callback \<Rightarrow> 'v node" where
  "removeEventListener (ElementNode t as ls cs) event cb =
     ElementNode t as (filter (\<lambda>l. l \<noteq> (event, cb)) ls) cs"
| "removeEventListener (TextNode s ls) event cb = TextNode s (filter (\<lambda>l. l \<noteq> (event, cb)) ls)"

text \<open>A text node cannot have children: \<open>appendChild\<close> throws a \<open>HierarchyRequestError\<close>.\<close>

fun appendChild :: "'v node \<Rightarrow> 'v node \<Rightarrow> error + 'v node" where
  "appendChild (ElementNode t as ls cs) child = Inr (ElementNode t as ls (cs @ [child]))"
| "appendChild (TextNode s ls) child = Inl HierarchyRequestError"

text \<open>
  Firing an event on a node runs its listeners for that event in the order of their
  registration; the result is the sequence of messages handed to \<open>enqueue\<close>.
\<close>

fun fire :: "'v node \<Rightarrow> string \<Rightarrow> 'v list" where
  "fire el event =
     concat (map (\<lambda>l. case l of
                      (ev, Enqueue msg) \<Rightarrow> (if ev = event then [msg] else [])
                    | (ev, Handler v) \<Rightarrow> [])
                 (listeners el))"

section \<open>The patcher: \<open>create\<close>, \<open>modify\<close>, \<open>apply\<close>\<close>

text \<open>A \<open>for\<close> loop whose body may throw: the first error ends the loop.\<close>

fun forEach :: "('s \<Rightarrow> 'a \<Rightarrow> error + 's) \<Rightarrow> 's \<Rightarrow> 'a list \<Rightarrow> error + 's" where
  "forEach body s [] = Inr s"
| "forEach body s (x # xs) =
     (case body s x of Inl e \<Rightarrow> Inl e | Inr s' \<Rightarrow> forEach body s' xs)"

text \<open>
  Body of the attribute loop of \<open>create\<close>. The conditional \<open>event ? ... : ...\<close>
  tests the truthiness of the result of \<open>eventName\<close>: it takes the second branch when
  \<open>event\<close> is \<open>null\<close> and when it is the empty string. \<open>attr\<close> is a key of the
  attributes, so the \<open>None\<close> branch of the lookup only makes the function total.
\<close>

definition createAttr :: "(string \<times> 'v) list \<Rightarrow> 'v node \<Rightarrow> string \<Rightarrow> error + 'v node" where
  "createAttr attrs el attr =
     (let event = eventName attr in
      case map_of attrs attr of
        None \<Rightarrow> Inr el
      | Some v \<Rightarrow>
          (case event of
             Some name \<Rightarrow>
               if name \<noteq> [] then Inr (addEventListener el name (Enqueue v))
               else setAttribute el attr v
           | None \<Rightarrow> setAttribute el attr v))"

text \<open>
  \<open>create\<close> and its loop over the children (\<open>createChildren\<close>): \<open>n\<close> is the length of
  the filtered array \<open>children\<close>, whose indices \<open>for (let i in children)\<close> enumerates,
  and \<open>cs\<close> is the unfiltered \<open>spec.children\<close>, which the body indexes.

  An \<open>Empty\<close> spec has no \<open>textContent\<close>: \<open>createElement(undefined)\<close> returns an
  element, the attribute loop runs over \<open>undefined\<close> (no iteration) and
  \<open>removeEmpty(undefined)\<close> throws a \<open>TypeError\<close> in \<open>Array.from\<close>.
  \<open>create(undefined)\<close> throws a \<open>TypeError\<close> on reading \<open>spec.textContent\<close>.
\<close>

function create :: "'v spec \<Rightarrow> error + 'v node"
  and createChildren :: "'v spec list \<Rightarrow> nat \<Rightarrow> nat \<Rightarrow> 'v node \<Rightarrow> error + 'v node"
where
  "create (Text s) = Inr (createTextNode s)"
| "create Empty = Inl TypeError"
| "create (Element t attrs cs) =
     (case forEach (createAttr attrs) (createElement t) (map fst attrs) of
        Inl e \<Rightarrow> Inl e
      | Inr el \<Rightarrow> createChildren cs (length (removeEmpty cs)) 0 el)"
| "createChildren cs n i el =
     (if i < n then
        (if i < length cs then
           (case create (cs ! i) of
              Inl e \<Rightarrow> Inl e
            | Inr child \<Rightarrow>
                (case appendChild el child of
                   Inl e \<Rightarrow> Inl e
                 | Inr el' \<Rightarrow> createChildren cs n (Suc i) el'))
         else Inl TypeError)
      else Inr el)"
  by pat_completeness auto

termination
proof (relation "measures
    [\<lambda>x. case x of
        Inl s \<Rightarrow> 2 * size s
      | Inr (cs, n, i, el) \<Rightarrow> 2 * size_list size cs + 1,
     \<lambda>x. case x of
        Inl s \<Rightarrow> 0
      | Inr (cs, n, i, el) \<Rightarrow> n - i]",
    goal_cases)
  case 1
  show ?case by simp
next
  case (2 t attrs cs el)
  show ?case by simp
next
  case (3 cs n i el)
  then have "size (cs ! i) < size_list size cs" by (intro size_nth_less)
  then show ?case by simp
next
  case (4 cs n i el child el')
  then show ?case by auto
qed

text \<open>
  The decimal numeral of an array index, and the keys that \<open>for ... in\<close> enumerates on
  an array: its indices, as strings.
\<close>

fun toString :: "nat \<Rightarrow> string" where
  "toString n =
     (if n < 10 then [char_of (48 + n)]
      else toString (n div 10) @ [char_of (48 + n mod 10)])"

declare toString.simps [simp del]

definition arrayKeys :: "'a list \<Rightarrow> string list" where
  "arrayKeys xs = map toString [0..<length xs]"

text \<open>Bodies of the second, third and fourth loop of \<open>modify\<close>.\<close>

definition setAttrStep :: "(string \<times> 'v) list \<Rightarrow> 'v node \<Rightarrow> string \<Rightarrow> error + 'v node" where
  "setAttrStep setAttr el attr =
     (case map_of setAttr attr of None \<Rightarrow> Inr el | Some v \<Rightarrow> setAttribute el attr v)"

definition removeListenerStep ::
  "(string \<times> 'v option) list \<Rightarrow> 'v node \<Rightarrow> string \<Rightarrow> 'v node" where
  "removeListenerStep removeListeners el event =
     removeEventListener el event
       (Handler (case map_of removeListeners event of None \<Rightarrow> None | Some v \<Rightarrow> v))"

definition addListenerStep :: "(string \<times> 'v) list \<Rightarrow> 'v node \<Rightarrow> string \<Rightarrow> 'v node" where
  "addListenerStep addListeners el event =
     (case map_of addListeners event of
        None \<Rightarrow> el
      | Some msg \<Rightarrow> addEventListener el event (Enqueue msg))"

text \<open>
  \<open>modify\<close> takes the five fields of the \<open>ContentsDiff\<close>. \<open>applyLoop\<close> is the loop of
  \<open>apply\<close>: the list is what is left of \<open>childrenDiff\<close> from index \<open>i\<close> on, and \<open>k\<close> is
  the cursor into \<open>el.childNodes\<close>. After a removal the source decrements \<open>k\<close> and the
  loop header increments it again, so \<open>k\<close> stays. \<open>el.childNodes[k]\<close> beyond the end is
  \<open>undefined\<close>, and calling a method on it, or passing it to \<open>modify\<close>, throws a
  \<open>TypeError\<close>. The five constructors of \<open>elementDiff\<close> are the five shapes that the
  loop tests for, so its last branch (\<open>Unexpected diff option\<close>) has no counterpart.
  \<open>apply\<close> is written \<open>applyDiff\<close>.
\<close>

function modify ::
    "'v node \<Rightarrow> string list \<Rightarrow> (string \<times> 'v) list \<Rightarrow> (string \<times> 'v option) list \<Rightarrow>
     (string \<times> 'v) list \<Rightarrow> 'v elementDiff list \<Rightarrow> error + 'v node"
  and applyLoop :: "'v node \<Rightarrow> 'v elementDiff list \<Rightarrow> nat \<Rightarrow> error + 'v node"
where
  "modify el removeAttr setAttr removeListeners addListeners children =
     (case forEach removeAttribute el (arrayKeys removeAttr) of
        Inl e \<Rightarrow> Inl e
      | Inr el1 \<Rightarrow>
     (case forEach (setAttrStep setAttr) el1 (map fst setAttr) of
        Inl e \<Rightarrow> Inl e
      | Inr el2 \<Rightarrow>
     (let el3 = foldl (removeListenerStep removeListeners) el2 (map fst removeListeners);
          el4 = foldl (addListenerStep addListeners) el3 (map fst addListeners)
      in if length children < length (childNodes el4)
         then Inl (Error ''unmatched children lengths'')
         else applyLoop el4 children 0)))"
| "applyLoop el [] k = Inr el"
| "applyLoop el (Remove # diffs) k =
     (if k < length (childNodes el)
      then applyLoop (setChildNodes el (take k (childNodes el) @ drop (Suc k) (childNodes el)))
             diffs k
      else Inl TypeError)"
| "applyLoop el (Modify removeAttr setAttr removeListeners addListeners children # diffs) k =
     (if k < length (childNodes el) then
        (case modify (childNodes el ! k) removeAttr setAttr removeListeners addListeners children of
           Inl e \<Rightarrow> Inl e
         | Inr child \<Rightarrow> applyLoop (setChildNodes el ((childNodes el)[k := child])) diffs (Suc k))
      else Inl TypeError)"
| "applyLoop el (Create spec # diffs) k =
     (if k < length (childNodes el)
      then Inl (Error (''Adding in the middle of children: '' @ toString k @ '' '' @
                        toString (length (childNodes el))))
      else (case create spec of
              Inl e \<Rightarrow> Inl e
            | Inr child \<Rightarrow>
                (case appendChild el child of
                   Inl e \<Rightarrow> Inl e
                 | Inr el' \<Rightarrow> applyLoop el' diffs (Suc k))))"
| "applyLoop el (Replace spec # diffs) k =
     (case create spec of
        Inl e \<Rightarrow> Inl e
      | Inr child \<Rightarrow>
          if k < length (childNodes el)
          then applyLoop (setChildNodes el ((childNodes el)[k := child])) diffs (Suc k)
          else Inl TypeError)"
| "applyLoop el (Noop # diffs) k = applyLoop el diffs (Suc k)"
  by pat_completeness auto

termination
  by (relation "measure (\<lambda>x. case x of
        Inl (el, removeAttr, setAttr, removeListeners, addListeners, children) \<Rightarrow>
          2 * size_list size children + 1
      | Inr (el, diffs, k) \<Rightarrow> 2 * size_list size diffs)") auto

definition applyDiff :: "'v node \<Rightarrow> 'v elementDiff list \<Rightarrow> error + 'v node" where
  "applyDiff el childrenDiff = applyLoop el childrenDiff 0"

section \<open>The loop: \<open>init\<close>, \<open>enqueue\<close>, \<open>draw\<close>, \<open>updateState\<close>\<close>

text \<open>
  The variables that \<open>init\<close> closes over, with the root node. \<open>rendered\<close> is not a
  variable of the source: it records the argument of every call of \<open>view\<close>, in order,
  so that the number of redraws can be stated.

  The caller's \<open>update(state, msg, enqueue)\<close> is a function from the state and the
  message to the new state and the messages it passes to \<open>enqueue\<close>, in order.
\<close>

record ('s, 'v) loop =
  state :: 's
  spec :: "'v spec list"
  queue :: "'v list"
  root :: "'v node"
  rendered :: "'s list"

definition enqueue :: "'v \<Rightarrow> ('s, 'v) loop \<Rightarrow> ('s, 'v) loop" where
  "enqueue msg c = c\<lparr>queue := queue c @ [msg]\<rparr>"

definition draw :: "('s \<Rightarrow> 'v spec list) \<Rightarrow> ('s, 'v) loop \<Rightarrow> error + ('s, 'v) loop" where
  "draw view c =
     (let newSpec = view (state c);
          c1 = c\<lparr>rendered := rendered c @ [state c]\<rparr>
      in case diffList (spec c1) newSpec of
           Inl e \<Rightarrow> Inl e
         | Inr diffs \<Rightarrow>
             (case applyDiff (root c1) diffs of
                Inl e \<Rightarrow> Inl e
              | Inr root' \<Rightarrow> Inr (c1\<lparr>root := root', spec := newSpec\<rparr>)))"

text \<open>Body of \<open>msgs.forEach\<close> in \<open>updateState\<close>.\<close>

definition updateStep ::
  "('s \<Rightarrow> 'v \<Rightarrow> 's \<times> 'v list) \<Rightarrow> ('s, 'v) loop \<Rightarrow> 'v \<Rightarrow> ('s, 'v) loop" where
  "updateStep update c msg =
     (case update (state c) msg of
        (state', enqueued) \<Rightarrow> (foldl (\<lambda>c m. enqueue m c) c enqueued)\<lparr>state := state'\<rparr>)"

text \<open>
  One run of \<open>updateState\<close>, up to the call of \<open>requestAnimationFrame\<close> that schedules
  the next one.
\<close>

definition updateState ::
  "('s \<Rightarrow> 'v \<Rightarrow> 's \<times> 'v list) \<Rightarrow> ('s \<Rightarrow> 'v spec list) \<Rightarrow> ('s, 'v) loop \<Rightarrow>
   error + ('s, 'v) loop" where
  "updateState update view c =
     (if length (queue c) > 0 then
        (let msgs = queue c;
             c1 = c\<lparr>queue := []\<rparr>
         in draw view (foldl (updateStep update) c1 msgs))
      else Inr c)"

definition init ::
  "'v node \<Rightarrow> 's \<Rightarrow> ('s \<Rightarrow> 'v \<Rightarrow> 's \<times> 'v list) \<Rightarrow> ('s \<Rightarrow> 'v spec list) \<Rightarrow>
   error + ('s, 'v) loop" where
  "init root0 initialState update view =
     (case draw view \<lparr>state = initialState, spec = [], queue = [], root = root0, rendered = []\<rparr> of
        Inl e \<Rightarrow> Inl e
      | Inr c \<Rightarrow> updateState update view c)"

section \<open>Properties of the differ\<close>

declare diffLoop.simps [simp del]

declare diffList.simps [simp del]

lemma indexOfFrom_range: "indexOfFrom s pat i = - 1 \<or> int i \<le> indexOfFrom s pat i"
  by (induction s pat i rule: indexOfFrom.induct) auto

lemma indexOf_zero_iff: "indexOf str pat = 0 \<longleftrightarrow> take (length pat) str = pat"
proof (cases str)
  case Nil
  then show ?thesis by (auto simp: indexOf_def)
next
  case (Cons c cs)
  have "indexOfFrom cs pat (Suc 0) \<noteq> 0"
    using indexOfFrom_range [of cs pat "Suc 0"] by auto
  with Cons show ?thesis by (simp add: indexOf_def)
qed

lemma eventName_Some_iff:
  "eventName str = Some ev \<longleftrightarrow> take 2 str = ''on'' \<and> ev = toLowerCase (drop 2 str)"
  using indexOf_zero_iff [of str "''on''"] by (auto simp: eventName_def numeral_2_eq_2)

lemma eventName_None_iff: "eventName str = None \<longleftrightarrow> take 2 str \<noteq> ''on''"
  using indexOf_zero_iff [of str "''on''"] by (auto simp: eventName_def numeral_2_eq_2)

lemma eventName_onclick: "eventName ''onclick'' = Some ''click''"
  by code_simp

lemma diffLoop_run:
  assumes "\<And>j. i \<le> j \<Longrightarrow> j < max (length ls) (length rs) \<Longrightarrow>
     (if length ls \<le> j then Inr (Create (rs ! j))
      else if length rs \<le> j then Inr Remove
      else diffOne (ls ! j) (rs ! j)) = Inr (f j)"
  shows "diffLoop ls rs i diffs = Inr (diffs @ map f [i..<max (length ls) (length rs)])"
  using assms
proof (induction "max (length ls) (length rs) - i" arbitrary: i diffs)
  case 0
  from "0.hyps" have nlt: "\<not> i < max (length ls) (length rs)" by linarith
  have "diffLoop ls rs i diffs = Inr diffs"
    by (subst diffLoop.simps) (simp only: nlt if_False)
  moreover have "[i..<max (length ls) (length rs)] = []"
    using nlt by (intro upt_conv_Nil) linarith
  ultimately show ?case by simp
next
  case (Suc n)
  then have lt: "i < max (length ls) (length rs)" by simp
  have n: "n = max (length ls) (length rs) - Suc i" using Suc.hyps(2) by simp
  have step: "(if length ls \<le> i then Inr (Create (rs ! i))
      else if length rs \<le> i then Inr Remove
      else diffOne (ls ! i) (rs ! i)) = Inr (f i)"
    using Suc.prems [of i] lt by simp
  have rest: "diffLoop ls rs (Suc i) (diffs @ [f i]) =
      Inr ((diffs @ [f i]) @ map f [Suc i..<max (length ls) (length rs)])"
    using Suc.hyps(1) [OF n] Suc.prems by simp
  have "diffLoop ls rs i diffs = diffLoop ls rs (Suc i) (diffs @ [f i])"
    by (subst diffLoop.simps) (use step lt in \<open>auto split: if_splits\<close>)
  with rest lt show ?case by (simp add: upt_conv_Cons)
qed

lemma diffList_entries:
  assumes "\<And>c r. c \<in> set ls_raw \<Longrightarrow> \<not> emptySpec c \<Longrightarrow> \<exists>d. diffOne c r = Inr d"
  shows "diffList ls_raw rs_raw =
     Inr (map (entry (removeEmpty ls_raw) (removeEmpty rs_raw))
            [0..<max (length (removeEmpty ls_raw)) (length (removeEmpty rs_raw))])"
proof -
  let ?ls = "removeEmpty ls_raw" and ?rs = "removeEmpty rs_raw"
  have "(if length ?ls \<le> j then Inr (Create (?rs ! j))
      else if length ?rs \<le> j then Inr Remove
      else diffOne (?ls ! j) (?rs ! j)) = Inr (entry ?ls ?rs j)" for j
  proof (cases "j < length ?ls")
    case True
    then have "?ls ! j \<in> set ?ls" by simp
    then have "?ls ! j \<in> set ls_raw" and "\<not> emptySpec (?ls ! j)"
      by (auto simp: removeEmpty_def)
    then obtain d where "diffOne (?ls ! j) (?rs ! j) = Inr d"
      using assms by blast
    then show ?thesis by (simp add: entry_def)
  next
    case False
    then show ?thesis by (simp add: entry_def)
  qed
  then have "diffLoop ?ls ?rs 0 [] = Inr ([] @ map (entry ?ls ?rs) [0..<max (length ?ls) (length ?rs)])"
    by (intro diffLoop_run) simp
  then show ?thesis by (simp add: diffList.simps)
qed

lemma diffOne_total: "\<not> emptySpec l \<Longrightarrow> \<exists>d. diffOne l r = Inr d"
proof (induction l arbitrary: r)
  case (Element t la lc)
  show ?case
  proof (cases r)
    case (Element t' ra rc)
    have "\<exists>ds. diffList lc rc = Inr ds"
      using diffList_entries [of lc rc] Element.IH by blast
    then show ?thesis
      using Element by (auto split: prod.splits)
  qed simp_all
next
  case (Text s)
  show ?case by simp
next
  case Empty
  then show ?case by simp
qed

lemma diffList_map:
  "diffList ls_raw rs_raw =
     Inr (map (entry (removeEmpty ls_raw) (removeEmpty rs_raw))
            [0..<max (length (removeEmpty ls_raw)) (length (removeEmpty rs_raw))])"
  by (rule diffList_entries) (rule diffOne_total)

lemma removedStep_same: "attr \<in> fst ` set la \<Longrightarrow> removedStep la la acc attr = acc"
  by (cases acc) (auto simp: removedStep_def map_of_eq_None_iff)

lemma foldl_removedStep_same:
  "set ks \<subseteq> fst ` set la \<Longrightarrow> foldl (removedStep la la) acc ks = acc"
  by (induction ks arbitrary: acc) (simp_all add: removedStep_same)

lemma changedStep_same: "changedStep la la acc attr = acc"
  by (cases acc) (auto simp: changedStep_def split: option.splits)

lemma foldl_changedStep_same: "foldl (changedStep la la) acc ks = acc"
  by (induction ks arbitrary: acc) (simp_all add: changedStep_same)

lemma diffOne_same: "\<not> emptySpec T \<Longrightarrow> diffOne T T = Inr Noop"
proof (induction T)
  case (Element t la lc)
  let ?ls = "removeEmpty lc"
  have "entry ?ls ?ls j = Noop" if "j < length ?ls" for j
  proof -
    from that have "?ls ! j \<in> set ?ls" by simp
    then have "?ls ! j \<in> set lc" and "\<not> emptySpec (?ls ! j)"
      by (auto simp: removeEmpty_def)
    then have "diffOne (?ls ! j) (?ls ! j) = Inr Noop" by (rule Element.IH)
    with that show ?thesis by (simp add: entry_def)
  qed
  then have "map (entry ?ls ?ls) [0..<length ?ls] = map (\<lambda>j. Noop) [0..<length ?ls]"
    by (intro map_cong) simp_all
  then have "diffList lc lc = Inr (replicate (length ?ls) Noop)"
    by (simp add: diffList_map [of lc lc] map_replicate_const)
  then show ?case
    by (simp add: foldl_removedStep_same foldl_changedStep_same list_all_length)
next
  case (Text s)
  show ?case by simp
next
  case Empty
  then show ?case by simp
qed

lemma diffList_same: "diffList ts ts = Inr (replicate (length (removeEmpty ts)) Noop)"
proof -
  let ?ls = "removeEmpty ts"
  have "entry ?ls ?ls j = Noop" if "j < length ?ls" for j
  proof -
    from that have "?ls ! j \<in> set ?ls" by simp
    then have "\<not> emptySpec (?ls ! j)" by (auto simp: removeEmpty_def)
    then have "diffOne (?ls ! j) (?ls ! j) = Inr Noop" by (rule diffOne_same)
    with that show ?thesis by (simp add: entry_def)
  qed
  then have "map (entry ?ls ?ls) [0..<length ?ls] = map (\<lambda>j. Noop) [0..<length ?ls]"
    by (intro map_cong) simp_all
  then show ?thesis
    by (simp add: diffList_map [of ts ts] map_replicate_const)
qed


lemma map_of_same_keys:
  "attr \<noteq> k \<Longrightarrow> map_of (as1 @ (k, f) # as2) attr = map_of (as1 @ (k, g) # as2) attr"
  by (simp add: map_add_def split: option.splits)

lemma foldl_removedStep_fst:
  assumes "\<forall>attr \<in> set ks. map_of ra attr = None \<longrightarrow> eventName attr \<noteq> None"
  shows "fst (foldl (removedStep la ra) acc ks) = fst acc"
  using assms
proof (induction ks arbitrary: acc)
  case Nil
  show ?case by simp
next
  case (Cons k ks)
  have "fst (removedStep la ra acc k) = fst acc"
    using Cons.prems by (cases acc) (auto simp: removedStep_def)
  with Cons show ?case by simp
qed

lemma foldl_changedStep_fst:
  assumes "\<forall>attr \<in> set ks. map_of ra attr \<noteq> map_of la attr \<longrightarrow> eventName attr \<noteq> None"
  shows "fst (foldl (changedStep la ra) acc ks) = fst acc"
  using assms
proof (induction ks arbitrary: acc)
  case Nil
  show ?case by simp
next
  case (Cons k ks)
  have "fst (changedStep la ra acc k) = fst acc"
    using Cons.prems by (cases acc) (auto simp: changedStep_def split: option.splits)
  with Cons show ?case by simp
qed

lemma diffOne_listener_delta_dropped:
  assumes rem: "\<forall>attr \<in> fst ` set la. map_of ra attr = None \<longrightarrow> eventName attr \<noteq> None"
    and chg: "\<forall>attr \<in> fst ` set ra. map_of ra attr \<noteq> map_of la attr \<longrightarrow> eventName attr \<noteq> None"
  shows "diffOne (Element t la cs) (Element t ra cs) = Inr Noop"
proof -
  obtain removeAttr rl0 where r: "foldl (removedStep la ra) ([], []) (map fst la) = (removeAttr, rl0)"
    by (cases "foldl (removedStep la ra) ([], []) (map fst la)")
  obtain setAttr rl al where c: "foldl (changedStep la ra) ([], rl0, []) (map fst ra) = (setAttr, rl, al)"
    by (cases "foldl (changedStep la ra) ([], rl0, []) (map fst ra)")
  have "removeAttr = []"
    using foldl_removedStep_fst [of "map fst la" ra la "([], [])"] rem r by simp
  moreover have "setAttr = []"
    using foldl_changedStep_fst [of "map fst ra" ra la "([], rl0, [])"] chg c by simp
  moreover have "diffList cs cs = Inr (replicate (length (removeEmpty cs)) Noop)"
    by (rule diffList_same)
  ultimately show ?thesis
    using r c by (simp add: list_all_length)
qed

text \<open>
  Claim C1 says that diffing two elements that differ only in the handler of \<open>onclick\<close>
  (\<open>f\<close> against \<open>g\<close>) gives a \<open>Modify\<close> with \<open>removeListeners = {click: f}\<close> and
  \<open>addListeners = {click: g}\<close>, never \<open>Noop\<close>. The code computes both listener maps
  but \<open>noAttributeChange\<close> looks at \<open>removeAttr\<close> and \<open>setAttr\<close> only, so it answers
  \<open>Noop\<close>: at the two buttons below, and for every tag, every list of other attributes
  before and after \<open>onclick\<close>, every children list and every two handlers.
\<close>

theorem diffOne_listener_rebinding_Noop:
  "diffOne (Element ''button'' [(''onclick'', ''f'')] [])
           (Element ''button'' [(''onclick'', ''g'')] []) = Inr Noop \<and>
   diffOne (Element t (as1 @ (''onclick'', f) # as2) cs)
           (Element t (as1 @ (''onclick'', g) # as2) cs) = Inr Noop"
proof
  show "diffOne (Element ''button'' [(''onclick'', ''f'')] [])
           (Element ''button'' [(''onclick'', ''g'')] []) = Inr Noop"
    by code_simp
next
  let ?la = "as1 @ (''onclick'', f) # as2" and ?ra = "as1 @ (''onclick'', g) # as2"
  have ev: "eventName ''onclick'' \<noteq> None" by (simp add: eventName_None_iff)
  have keys: "fst ` set ?la = fst ` set ?ra" by simp
  have "map_of ?ra attr \<noteq> None" if "attr \<in> fst ` set ?la" for attr
    using that unfolding keys by (simp only: map_of_eq_None_iff not_not)
  moreover have "eventName attr \<noteq> None" if "map_of ?ra attr \<noteq> map_of ?la attr" for attr
    using that ev map_of_same_keys [of attr "''onclick''" as1 f as2 g] by (cases "attr = ''onclick''") auto
  ultimately show "diffOne (Element t ?la cs) (Element t ?ra cs) = Inr Noop"
    by (intro diffOne_listener_delta_dropped) blast+
qed

text \<open>
  Claim C6: \<open>diffList\<close> filters \<open>Empty\<close> from both lists and returns a sequence of
  length \<open>max |prev| |next|\<close> (of the filtered lists) whose position \<open>i\<close> is
  \<open>Create(next[i])\<close> if \<open>i \<ge> |prev|\<close>, \<open>Remove\<close> if \<open>i \<ge> |next|\<close>, and the result of
  \<open>diffOne(prev[i], next[i])\<close> otherwise; \<open>diffList\<close> always returns. In particular, for
  nodes \<open>A\<close> and \<open>B\<close> that the filter keeps, \<open>diffList([A], [A, B]) = [Noop, Create(B)]\<close>
  and \<open>diffList([A, B], [A]) = [Noop, Remove]\<close>.
\<close>

theorem diffList_positions:
  "(\<exists>diffs. diffList prev nxt = Inr diffs \<and>
      length diffs = max (length (removeEmpty prev)) (length (removeEmpty nxt)) \<and>
      (\<forall>i < length diffs.
         if length (removeEmpty prev) \<le> i then diffs ! i = Create (removeEmpty nxt ! i)
         else if length (removeEmpty nxt) \<le> i then diffs ! i = Remove
         else diffOne (removeEmpty prev ! i) (removeEmpty nxt ! i) = Inr (diffs ! i))) \<and>
   (\<not> emptySpec A \<and> \<not> emptySpec B \<longrightarrow>
      diffList [A] [A, B] = Inr [Noop, Create B] \<and>
      diffList [A, B] [A] = Inr [Noop, Remove])"
proof (intro conjI impI)
  let ?ls = "removeEmpty prev" and ?rs = "removeEmpty nxt"
  let ?diffs = "map (entry ?ls ?rs) [0..<max (length ?ls) (length ?rs)]"
  have "diffOne (?ls ! i) (?rs ! i) = Inr (entry ?ls ?rs i)"
    if "i < length ?ls" "i < length ?rs" for i
  proof -
    from that have "?ls ! i \<in> set ?ls" by simp
    then have "\<not> emptySpec (?ls ! i)" by (auto simp: removeEmpty_def)
    then obtain d where "diffOne (?ls ! i) (?rs ! i) = Inr d"
      using diffOne_total by blast
    with that show ?thesis by (simp add: entry_def)
  qed
  then have "\<forall>i < length ?diffs.
         if length ?ls \<le> i then ?diffs ! i = Create (?rs ! i)
         else if length ?rs \<le> i then ?diffs ! i = Remove
         else diffOne (?ls ! i) (?rs ! i) = Inr (?diffs ! i)"
    by (auto simp: entry_def)
  moreover have "length ?diffs = max (length ?ls) (length ?rs)" by simp
  moreover have "diffList prev nxt = Inr ?diffs" by (rule diffList_map)
  ultimately show "\<exists>diffs. diffList prev nxt = Inr diffs \<and>
      length diffs = max (length ?ls) (length ?rs) \<and>
      (\<forall>i < length diffs.
         if length ?ls \<le> i then diffs ! i = Create (?rs ! i)
         else if length ?rs \<le> i then diffs ! i = Remove
         else diffOne (?ls ! i) (?rs ! i) = Inr (diffs ! i))"
    by blast
next
  assume ne: "\<not> emptySpec A \<and> \<not> emptySpec B"
  then have same: "diffOne A A = Inr Noop" by (simp add: diffOne_same)
  from ne have 1: "removeEmpty [A] = [A]" and 2: "removeEmpty [A, B] = [A, B]"
    by (simp_all add: removeEmpty_def)
  show "diffList [A] [A, B] = Inr [Noop, Create B]"
    by (simp add: diffList_map 1 2 entry_def same upt_conv_Cons)
  show "diffList [A, B] [A] = Inr [Noop, Remove]"
    by (simp add: diffList_map 1 2 entry_def same upt_conv_Cons)
qed

theorem diffList_positions_witness:
  "\<not> emptySpec (Text ''a'') \<and> \<not> emptySpec (Element ''p'' [] []) \<and>
   diffList [Text ''a''] [Text ''a'', Element ''p'' [] []]
     = (Inr [Noop, Create (Element ''p'' [] [])] :: error + string elementDiff list) \<and>
   diffList [Text ''a'', Element ''p'' [] []] [Text ''a'']
     = (Inr [Noop, Remove] :: error + string elementDiff list) \<and>
   (\<exists>diffs :: string elementDiff list.
      diffList [Empty, Text ''a''] [Text ''b'', Empty, Text ''c''] = Inr diffs \<and>
      length diffs = 2 \<and> (1::nat) < length diffs \<and> diffs ! 1 = Create (Text ''c''))"
  using diffList_positions [of "[Empty, Text ''a'']" "[Text ''b'', Empty, Text ''c'']"
      "Text ''a''" "Element ''p'' [] [] :: string spec"]
  by (auto simp: removeEmpty_def)

text \<open>
  Claim C7: \<open>Empty\<close> nodes are transparent to list diffing.
  \<open>diffList([Empty, A, Empty, B], [A, B])\<close> equals \<open>diffList([A, B], [A, B])\<close>, and
  putting an \<open>Empty\<close> at any position of either input does not change the result.
\<close>

theorem diffList_Empty_transparent:
  "diffList [Empty, A, Empty, B] [A, B] = diffList [A, B] [A, B] \<and>
   diffList (xs @ Empty # ys) rs = diffList (xs @ ys) rs \<and>
   diffList ls (xs @ Empty # ys) = diffList ls (xs @ ys)"
  by (simp add: diffList.simps removeEmpty_def)

text \<open>
  Claim C5: diffing a spec tree against a structurally equal one gives \<open>Noop\<close> at the
  root (the first alternative of the claim). The tree that \<open>view\<close> returns, and that
  \<open>draw\<close> hands to \<open>diffList\<close>, is a list of nodes: every entry of its script is
  \<open>Noop\<close>, one for each node that is not \<open>Empty\<close>. A node that \<open>diffList\<close> hands on
  to \<open>diffOne\<close> is an element or a text (with children of any kind, \<open>Empty\<close> ones
  too), and its script is \<open>Noop\<close>.
\<close>

theorem diff_idempotent:
  "diffList ts ts = Inr (replicate (length (removeEmpty ts)) Noop) \<and>
   diffOne (Element t as cs) (Element t as cs) = Inr Noop \<and>
   diffOne (Text s) (Text s) = Inr Noop"
  using diffOne_same [of "Element t as cs"] by (simp add: diffList_same)

text \<open>
  An instance, with an event binding, an \<open>Empty\<close> child and an \<open>Empty\<close> at the top.
\<close>

lemma diff_idempotent_example:
  "diffOne (Element ''div'' [(''id'', ''x''), (''onclick'', ''m'')] [Empty, Text ''a''])
           (Element ''div'' [(''id'', ''x''), (''onclick'', ''m'')] [Empty, Text ''a''])
     = Inr Noop \<and>
   diffList [Element ''div'' [(''id'', ''x''), (''onclick'', ''m'')] [Empty, Text ''a''], Empty]
            [Element ''div'' [(''id'', ''x''), (''onclick'', ''m'')] [Empty, Text ''a''], Empty]
     = Inr [Noop]"
  by code_simp

section \<open>Properties of the patcher\<close>

lemma forEach_removeAttribute_Element:
  "forEach removeAttribute (ElementNode t as ls cs) ks =
     Inr (ElementNode t (foldl (\<lambda>a k. AList.delete k a) as ks) ls cs)"
  by (induction ks arbitrary: as) simp_all

lemma forEach_setAttrStep_Element:
  "\<exists>as'. forEach (setAttrStep setAttr) (ElementNode t as ls cs) ks = Inr (ElementNode t as' ls cs)"
proof (induction ks arbitrary: as)
  case Nil
  show ?case by simp
next
  case (Cons k ks)
  obtain as1 where "setAttrStep setAttr (ElementNode t as ls cs) k = Inr (ElementNode t as1 ls cs)"
    by (cases "map_of setAttr k") (simp_all add: setAttrStep_def)
  with Cons.IH [of as1] show ?case by simp
qed

lemma fire_removeEventListener_Handler:
  "fire (removeEventListener el event (Handler v)) ev = fire el ev"
proof -
  have "concat (map (\<lambda>l. case l of
                      (e, Enqueue msg) \<Rightarrow> (if e = ev then [msg] else [])
                    | (e, Handler w) \<Rightarrow> [])
                 (filter (\<lambda>l. l \<noteq> (event, Handler v)) ls))
      = concat (map (\<lambda>l. case l of
                      (e, Enqueue msg) \<Rightarrow> (if e = ev then [msg] else [])
                    | (e, Handler w) \<Rightarrow> []) ls)" for ls :: "(string \<times> 'a callback) list"
    by (induction ls) auto
  then show ?thesis by (cases el) simp_all
qed

lemma removeEventListener_Element:
  "\<exists>ls'. removeEventListener (ElementNode t as ls cs) event cb = ElementNode t as ls' cs"
  by simp

lemma foldl_removeListenerStep_Element:
  "\<exists>ls'. foldl (removeListenerStep rl) (ElementNode t as ls cs) ks = ElementNode t as ls' cs \<and>
         (\<forall>ev. fire (ElementNode t as ls' cs) ev = fire (ElementNode t as ls cs) ev)"
proof (induction ks arbitrary: ls)
  case Nil
  show ?case by simp
next
  case (Cons k ks)
  obtain ls1 where 1: "removeListenerStep rl (ElementNode t as ls cs) k = ElementNode t as ls1 cs"
    by (simp add: removeListenerStep_def)
  have "fire (removeListenerStep rl (ElementNode t as ls cs) k) ev = fire (ElementNode t as ls cs) ev" for ev
    unfolding removeListenerStep_def by (rule fire_removeEventListener_Handler)
  with 1 Cons.IH [of ls1] show ?case by auto
qed

lemma foldl_addListenerStep_Element:
  "\<exists>ls'. foldl (addListenerStep al) (ElementNode t as ls cs) ks = ElementNode t as (ls @ ls') cs"
proof (induction ks arbitrary: ls)
  case Nil
  show ?case by simp
next
  case (Cons k ks)
  obtain ls1 where 1: "addListenerStep al (ElementNode t as ls cs) k = ElementNode t as (ls @ ls1) cs"
    by (cases "map_of al k") (simp_all add: addListenerStep_def)
  from Cons.IH [of "ls @ ls1"] obtain ls2 where
    "foldl (addListenerStep al) (ElementNode t as (ls @ ls1) cs) ks = ElementNode t as (ls @ ls1 @ ls2) cs"
    by auto
  with 1 show ?case by auto
qed

lemma fire_append:
  "fire (ElementNode t as (ls @ ls') cs) ev = fire (ElementNode t as ls cs) ev @ fire (ElementNode t as ls' cs) ev"
  by simp

text \<open>The four loops of \<open>modify\<close> on an element: they succeed, keep the children, and
  every message that an event delivered before is still delivered.\<close>

lemma modify_loops_Element:
  "\<exists>as' ls' extra.
     forEach removeAttribute (ElementNode t as ls cs) (arrayKeys removeAttr)
       = Inr (ElementNode t (foldl (\<lambda>a k. AList.delete k a) as (arrayKeys removeAttr)) ls cs) \<and>
     (\<exists>el2. forEach (setAttrStep setAttr)
         (ElementNode t (foldl (\<lambda>a k. AList.delete k a) as (arrayKeys removeAttr)) ls cs)
         (map fst setAttr) = Inr el2 \<and>
       foldl (addListenerStep addListeners)
         (foldl (removeListenerStep removeListeners) el2 (map fst removeListeners))
         (map fst addListeners) = ElementNode t as' ls' cs \<and>
       (\<forall>ev. fire (ElementNode t as' ls' cs) ev = fire (ElementNode t as ls cs) ev @ extra ev))"
proof -
  let ?as1 = "foldl (\<lambda>a k. AList.delete k a) as (arrayKeys removeAttr)"
  obtain as2 where 2: "forEach (setAttrStep setAttr) (ElementNode t ?as1 ls cs) (map fst setAttr)
      = Inr (ElementNode t as2 ls cs)"
    using forEach_setAttrStep_Element by blast
  obtain ls3 where 3: "foldl (removeListenerStep removeListeners) (ElementNode t as2 ls cs)
      (map fst removeListeners) = ElementNode t as2 ls3 cs"
    and f3: "\<And>ev. fire (ElementNode t as2 ls3 cs) ev = fire (ElementNode t as2 ls cs) ev"
    using foldl_removeListenerStep_Element [of removeListeners t as2 ls cs] by blast
  obtain ls4 where 4: "foldl (addListenerStep addListeners) (ElementNode t as2 ls3 cs)
      (map fst addListeners) = ElementNode t as2 (ls3 @ ls4) cs"
    using foldl_addListenerStep_Element by blast
  have "fire (ElementNode t as2 (ls3 @ ls4) cs) ev
      = fire (ElementNode t as ls cs) ev @ fire (ElementNode t as2 ls4 cs) ev" for ev
    using f3 [of ev] by simp
  with 2 3 4 show ?thesis
    by (intro exI [of _ as2] exI [of _ "ls3 @ ls4"] exI [of _ "\<lambda>ev. fire (ElementNode t as2 ls4 cs) ev"])
       (simp add: forEach_removeAttribute_Element)
qed

lemma applyLoop_listeners: "applyLoop el diffs k = Inr el' \<Longrightarrow> listeners el' = listeners el"
proof (induction diffs arbitrary: el k)
  case Nil
  then show ?case by simp
next
  case (Cons d diffs)
  show ?case
  proof (cases d)
    case (Replace s)
    with Cons.prems obtain child where
      "applyLoop (setChildNodes el ((childNodes el)[k := child])) diffs (Suc k) = Inr el'"
      by (auto split: sum.splits if_splits)
    from Cons.IH [OF this] show ?thesis by (cases el) simp_all
  next
    case Remove
    with Cons.prems have
      "applyLoop (setChildNodes el (take k (childNodes el) @ drop (Suc k) (childNodes el))) diffs k = Inr el'"
      by (auto split: if_splits)
    from Cons.IH [OF this] show ?thesis by (cases el) simp_all
  next
    case (Create s)
    with Cons.prems obtain child el1 where "appendChild el child = Inr el1"
      and "applyLoop el1 diffs (Suc k) = Inr el'"
      by (auto split: sum.splits if_splits)
    with Cons.IH [of el1 "Suc k"] show ?thesis by (cases el) auto
  next
    case (Modify ra sa rl al cs)
    with Cons.prems obtain child where
      "applyLoop (setChildNodes el ((childNodes el)[k := child])) diffs (Suc k) = Inr el'"
      by (auto split: sum.splits if_splits)
    from Cons.IH [OF this] show ?thesis by (cases el) simp_all
  next
    case Noop
    with Cons.prems Cons.IH show ?thesis by simp
  qed
qed

lemma modify_never_unbinds:
  assumes "modify (ElementNode t as ls cs) removeAttr setAttr removeListeners addListeners children
             = Inr el'"
  shows "\<exists>extra. fire el' ev = fire (ElementNode t as ls cs) ev @ extra"
proof -
  from modify_loops_Element [of t as ls cs removeAttr setAttr addListeners removeListeners]
  obtain as' ls' extra el2 where l:
    "forEach removeAttribute (ElementNode t as ls cs) (arrayKeys removeAttr)
       = Inr (ElementNode t (foldl (\<lambda>a k. AList.delete k a) as (arrayKeys removeAttr)) ls cs)"
    "forEach (setAttrStep setAttr)
         (ElementNode t (foldl (\<lambda>a k. AList.delete k a) as (arrayKeys removeAttr)) ls cs)
         (map fst setAttr) = Inr el2"
    "foldl (addListenerStep addListeners)
         (foldl (removeListenerStep removeListeners) el2 (map fst removeListeners))
         (map fst addListeners) = ElementNode t as' ls' cs"
    and f: "\<And>ev. fire (ElementNode t as' ls' cs) ev = fire (ElementNode t as ls cs) ev @ extra ev"
    by blast
  from assms l have "applyLoop (ElementNode t as' ls' cs) children 0 = Inr el'"
    by (simp split: if_splits)
  then have "listeners el' = ls'" using applyLoop_listeners by fastforce
  then have "fire el' ev = fire (ElementNode t as' ls' cs) ev" by simp
  with f [of ev] show ?thesis by simp
qed

text \<open>
  Claim C2 says that after a \<open>Modify\<close> at most one listener is bound per event name:
  each \<open>removeListeners\<close> entry unbinds the listener bound before, so that firing the
  event delivers the new message only. The code passes the old message value of the spec
  to \<open>removeEventListener\<close>, while the callback that was registered is the arrow
  function \<open>() => enqueue(value)\<close>; nothing is unbound (\<open>modify_never_unbinds\<close>). On
  the button created from \<open>onclick: f\<close>, for any two messages \<open>f\<close> and \<open>g\<close>, the edit
  with \<open>removeListeners = {click: f}\<close> and \<open>addListeners = {click: g}\<close> leaves two
  listeners, and a click delivers \<open>f\<close> and then \<open>g\<close>.
\<close>

theorem modify_keeps_old_listener:
  "create (Element ''button'' [(''onclick'', f)] [])
     = Inr (ElementNode ''button'' [] [(''click'', Enqueue f)] []) \<and>
   modify (ElementNode ''button'' [] [(''click'', Enqueue f)] [])
       [] [] [(''click'', Some f)] [(''click'', g)] []
     = Inr (ElementNode ''button'' [] [(''click'', Enqueue f), (''click'', Enqueue g)] []) \<and>
   fire (ElementNode ''button'' [] [(''click'', Enqueue f), (''click'', Enqueue g)] [])
       ''click''
     = [f, g]"
  by (simp add: createAttr_def eventName_onclick createElement_def removeEmpty_def
      arrayKeys_def removeListenerStep_def addListenerStep_def)

text \<open>
  The attribute loop of \<open>create\<close> never throws on the new element. When the first
  child is \<open>Empty\<close> and some later child is not, the children loop runs at least once
  and its first iteration calls \<open>create\<close> on the \<open>Empty\<close>.
\<close>

lemma forEach_createAttr_Element:
  "\<exists>as' ls'. forEach (createAttr attrs) (ElementNode t as ls cs) ks = Inr (ElementNode t as' ls' cs)"
proof (induction ks arbitrary: as ls)
  case Nil
  show ?case by simp
next
  case (Cons k ks)
  have "\<exists>as1 ls1. createAttr attrs (ElementNode t as ls cs) k = Inr (ElementNode t as1 ls1 cs)"
    by (simp add: createAttr_def split: option.splits)
  then obtain as1 ls1 where
    "createAttr attrs (ElementNode t as ls cs) k = Inr (ElementNode t as1 ls1 cs)"
    by blast
  with Cons.IH [of as1 ls1] show ?case by simp
qed

lemma create_leading_Empty:
  assumes "removeEmpty cs \<noteq> []"
  shows "create (Element t attrs (Empty # cs)) = Inl TypeError"
proof -
  obtain as' ls' where
    "forEach (createAttr attrs) (createElement t) (map fst attrs) = Inr (ElementNode t as' ls' [])"
    unfolding createElement_def using forEach_createAttr_Element by blast
  moreover have "0 < length (removeEmpty (Empty # cs))"
    using assms by (simp add: removeEmpty_def)
  ultimately show ?thesis
    by (simp add: createChildren.simps [of _ _ 0])
qed

text \<open>
  Claim C3 says that \<open>create\<close> builds live children exactly for the children that are
  not \<open>Empty\<close>, as if it created the filtered list. The loop of \<open>create\<close> takes its
  indices from the filtered array but reads \<open>spec.children[i]\<close>, the unfiltered one: with
  the children \<open>[Empty, Text a]\<close> it calls \<open>create\<close> on the \<open>Empty\<close>, which throws a
  \<open>TypeError\<close>, where the creation of the filtered list gives the single text node
  (and so for every children list that begins with an \<open>Empty\<close> followed by a node
  that is not: \<open>create_leading_Empty\<close>).
\<close>

theorem create_Empty_child_TypeError:
  "create (Element ''div'' [] [Empty, Text ''a'']) = (Inl TypeError :: error + string node) \<and>
   create (Element ''div'' [] (removeEmpty [Empty, Text ''a'']))
     = (Inr (ElementNode ''div'' [] [] [TextNode ''a'' []]) :: error + string node)"
  by code_simp

text \<open>
  What the first loop of \<open>modify\<close> deletes from an element are the attributes named by
  the indices of \<open>removeAttr\<close> (\<open>0\<close>, \<open>1\<close>, ...), which is what \<open>for ... in\<close>
  enumerates on an array.
\<close>

lemma modify_removeAttr_indices:
  "modify (ElementNode t as ls []) removeAttr [] [] [] []
     = Inr (ElementNode t (foldl (\<lambda>a k. AList.delete k a) as (map toString [0..<length removeAttr])) ls [])"
  by (simp add: forEach_removeAttribute_Element arrayKeys_def)

text \<open>
  Claim C4 says that \<open>modify\<close> deletes every attribute named in \<open>removeAttr\<close>, sets
  every pair of \<open>setAttr\<close> and leaves all other attributes unchanged. The pairs of
  \<open>setAttr\<close> are set, but the loop over \<open>removeAttr\<close> enumerates the indices of the
  array, not its elements: for the edit that \<open>diffOne\<close> computes from \<open>{id: x}\<close> to
  \<open>{class: y}\<close> the element keeps \<open>id\<close>, and an attribute named \<open>0\<close>, which the edit
  does not mention, is deleted.
\<close>

theorem modify_removeAttr_keeps_attribute:
  "diffOne (Element ''div'' [(''id'', ''x'')] []) (Element ''div'' [(''class'', ''y'')] [])
     = Inr (Modify [''id''] [(''class'', ''y'')] [] [] []) \<and>
   modify (ElementNode ''div'' [(''id'', ''x'')] [] []) [''id''] [(''class'', ''y'')] [] [] []
     = Inr (ElementNode ''div'' [(''id'', ''x''), (''class'', ''y'')] [] []) \<and>
   modify (ElementNode ''div'' [(''0'', ''z''), (''id'', ''x'')] [] []) [''id''] [] [] [] []
     = Inr (ElementNode ''div'' [(''id'', ''x'')] [] [])"
  by code_simp

text \<open>
  The comparison of the two lengths is in \<open>modify\<close>: for every live node and every
  \<open>Modify\<close> whose \<open>children\<close> are fewer than the node's \<open>childNodes\<close>, \<open>modify\<close>
  throws \<open>Error("unmatched children lengths")\<close>, before \<open>apply\<close> touches any child.
\<close>

lemma modify_unmatched_children:
  assumes "length children < length (childNodes el)"
  shows "modify el removeAttr setAttr removeListeners addListeners children
           = Inl (Error ''unmatched children lengths'')"
proof (cases el)
  case (ElementNode t as ls cs)
  from modify_loops_Element [of t as ls cs removeAttr setAttr addListeners removeListeners]
  obtain as' ls' el2 where
    "forEach removeAttribute (ElementNode t as ls cs) (arrayKeys removeAttr)
       = Inr (ElementNode t (foldl (\<lambda>a k. AList.delete k a) as (arrayKeys removeAttr)) ls cs)"
    "forEach (setAttrStep setAttr)
         (ElementNode t (foldl (\<lambda>a k. AList.delete k a) as (arrayKeys removeAttr)) ls cs)
         (map fst setAttr) = Inr el2"
    "foldl (addListenerStep addListeners)
         (foldl (removeListenerStep removeListeners) el2 (map fst removeListeners))
         (map fst addListeners) = ElementNode t as' ls' cs"
    by blast
  with assms ElementNode show ?thesis by simp
next
  case (TextNode s ls)
  with assms show ?thesis by simp
qed

lemma modify_unmatched_children_example:
  "modify (ElementNode ''ul'' [(''id'', ''x'')] [] [TextNode ''a'' [], TextNode ''b'' []])
       [] [(''id'', ''y'')] [] [] [Noop]
     = Inl (Error ''unmatched children lengths'')"
  by (rule modify_unmatched_children) simp

text \<open>
  Claim C9 says that applying an edit script that declares fewer children than the live
  node has raises a structural error at once, for every live node. \<open>modify\<close> does so
  for the node of a \<open>Modify\<close>, but \<open>apply\<close> itself compares no lengths, and \<open>draw\<close>
  calls it on the root directly: a root that already has a child, with the empty script
  that \<open>diffList([], [])\<close> returns for a \<open>view\<close> that renders nothing, is left as it
  is and no error is raised, neither by \<open>apply\<close> nor by \<open>init\<close>.
\<close>

theorem applyDiff_root_no_length_check:
  "length ([] :: nat elementDiff list)
     < length (childNodes (ElementNode ''div'' [] [] [TextNode ''loading'' []] :: nat node)) \<and>
   diffList [] [] = (Inr [] :: error + nat elementDiff list) \<and>
   applyDiff (ElementNode ''div'' [] [] [TextNode ''loading'' []]) []
     = (Inr (ElementNode ''div'' [] [] [TextNode ''loading'' []]) :: error + nat node) \<and>
   init (ElementNode ''div'' [] [] [TextNode ''loading'' []]) (0 :: nat) (\<lambda>s m. (s, [])) (\<lambda>s. [])
     = Inr \<lparr>state = 0, spec = [], queue = [],
            root = (ElementNode ''div'' [] [] [TextNode ''loading'' []] :: nat node),
            rendered = [0]\<rparr>"
  by (simp add: applyDiff_def init_def draw_def updateState_def diffList.simps diffLoop.simps
      removeEmpty_def)

text \<open>
  For an attribute whose name is longer than \<open>on\<close>, \<open>create\<close> classifies as
  \<open>eventName\<close> does.
\<close>

lemma createAttr_listener:
  assumes "take 2 attr = ''on''" and "attr \<noteq> ''on''" and "map_of attrs attr = Some v"
  shows "createAttr attrs el attr
           = Inr (addEventListener el (toLowerCase (drop 2 attr)) (Enqueue v))"
proof -
  have "eventName attr = Some (toLowerCase (drop 2 attr))"
    using assms(1) by (simp add: eventName_Some_iff)
  moreover have "drop 2 attr \<noteq> []"
    using assms(1,2) by (metis append_Nil2 append_take_drop_id)
  ultimately show ?thesis
    using assms(3) by (simp add: createAttr_def toLowerCase_def)
qed

lemma createAttr_attribute:
  assumes "take 2 attr \<noteq> ''on''" and "map_of attrs attr = Some v"
  shows "createAttr attrs el attr = setAttribute el attr v"
  using assms by (simp add: createAttr_def eventName_None_iff [symmetric])

text \<open>
  Claim C10 says that an attribute is an event binding exactly when its name begins
  with \<open>on\<close>, for the event named by the rest of the name in lower case, and that
  \<open>create\<close> and the differ classify alike. \<open>eventName\<close> does this
  (\<open>eventName_Some_iff\<close>, \<open>eventName_None_iff\<close>), and the differ tests its result
  against \<open>null\<close>; \<open>create\<close> tests its truthiness. For the name \<open>on\<close> the event
  name is the empty string, which is falsy: \<open>create\<close> sets \<open>on\<close> as a string
  attribute, while \<open>diffOne\<close> records its removal in \<open>removeListeners\<close> under the empty
  event name and not in \<open>removeAttr\<close>.
\<close>

theorem create_on_sets_attribute:
  "eventName ''on'' = Some [] \<and>
   create (Element ''div'' [(''on'', ''x'')] [])
     = Inr (ElementNode ''div'' [(''on'', ''x'')] [] []) \<and>
   diffOne (Element ''div'' [(''on'', ''x''), (''id'', ''a'')] [])
           (Element ''div'' [(''id'', ''b'')] [])
     = Inr (Modify [] [(''id'', ''b'')] [([], Some ''x'')] [] [])"
  by code_simp

section \<open>Properties of the loop\<close>

lemma foldl_enqueue: "foldl (\<lambda>c m. enqueue m c) c ms = c\<lparr>queue := queue c @ ms\<rparr>"
  by (induction ms arbitrary: c) (simp_all add: enqueue_def)

lemma updateStep_eq:
  "updateStep update c msg =
     c\<lparr>queue := queue c @ snd (update (state c) msg), state := fst (update (state c) msg)\<rparr>"
  by (simp add: updateStep_def foldl_enqueue split: prod.splits)

lemma draw_result:
  assumes "draw view c = Inr c'"
  shows "state c' = state c \<and> queue c' = queue c \<and> rendered c' = rendered c @ [state c] \<and>
         spec c' = view (state c)"
proof -
  from assms obtain root' where
    "c' = c\<lparr>rendered := rendered c @ [state c], root := root', spec := view (state c)\<rparr>"
    by (auto simp: draw_def Let_def split: sum.splits)
  then show ?thesis by simp
qed

text \<open>
  A tick with an empty queue does nothing. A tick with messages folds \<open>update\<close> over
  all of them in the order of the queue and calls \<open>view\<close> once.
\<close>

lemma foldl_updateStep:
  "state (foldl (updateStep update) c ms) = foldl (\<lambda>s m. fst (update s m)) (state c) ms \<and>
   rendered (foldl (updateStep update) c ms) = rendered c"
  by (induction ms arbitrary: c) (simp_all add: updateStep_eq)

lemma updateState_fold:
  assumes "queue c \<noteq> []" and "updateState update view c = Inr c'"
  shows "state c' = foldl (\<lambda>s m. fst (update s m)) (state c) (queue c) \<and>
         rendered c' = rendered c @ [state c']"
proof -
  from assms have "draw view (foldl (updateStep update) (c\<lparr>queue := []\<rparr>) (queue c)) = Inr c'"
    by (simp add: updateState_def)
  from draw_result [OF this] show ?thesis
    by (simp add: foldl_updateStep)
qed

lemma updateState_idle: "queue c = [] \<Longrightarrow> updateState update view c = Inr c"
  by (simp add: updateState_def)

text \<open>
  Claim C8: when \<open>m1\<close> and then \<open>m2\<close> are enqueued on an empty queue before a tick,
  the tick is one \<open>draw\<close> in the state \<open>update(update(S, m1), m2)\<close>, with the queue
  holding exactly the messages that the two calls of \<open>update\<close> passed to \<open>enqueue\<close>;
  these are not folded into the state in this tick. When the tick returns, \<open>view\<close> has
  been called once more than before, on that state, and the spec kept is its result.
\<close>

theorem updateState_batch:
  assumes "queue c = []"
  shows "(let s1 = fst (update (state c) m1);
              s2 = fst (update s1 m2);
              later = snd (update (state c) m1) @ snd (update s1 m2)
          in updateState update view (enqueue m2 (enqueue m1 c))
               = draw view (c\<lparr>queue := later, state := s2\<rparr>) \<and>
             (\<forall>c'. updateState update view (enqueue m2 (enqueue m1 c)) = Inr c' \<longrightarrow>
                state c' = s2 \<and> queue c' = later \<and> rendered c' = rendered c @ [s2] \<and>
                spec c' = view s2))"
proof -
  let ?s1 = "fst (update (state c) m1)"
  let ?s2 = "fst (update ?s1 m2)"
  let ?later = "snd (update (state c) m1) @ snd (update ?s1 m2)"
  let ?c2 = "enqueue m2 (enqueue m1 c)"
  have q: "queue ?c2 = [m1, m2]" and e: "?c2\<lparr>queue := []\<rparr> = c"
    using assms by (simp_all add: enqueue_def)
  have fold: "foldl (updateStep update) c [m1, m2] = c\<lparr>queue := ?later, state := ?s2\<rparr>"
    unfolding foldl.simps updateStep_eq using assms by simp
  have "updateState update view ?c2 = draw view (foldl (updateStep update) (?c2\<lparr>queue := []\<rparr>) [m1, m2])"
    unfolding updateState_def Let_def q by simp
  then have run: "updateState update view ?c2 = draw view (c\<lparr>queue := ?later, state := ?s2\<rparr>)"
    by (simp only: e fold)
  have after: "state c' = ?s2 \<and> queue c' = ?later \<and> rendered c' = rendered c @ [?s2] \<and> spec c' = view ?s2"
    if "updateState update view ?c2 = Inr c'" for c'
  proof -
    from that have "draw view (c\<lparr>queue := ?later, state := ?s2\<rparr>) = Inr c'"
      by (simp only: run)
    from draw_result [OF this] show ?thesis by simp
  qed
  show ?thesis
    unfolding Let_def using run after by blast
qed

theorem updateState_batch_witness:
  "queue \<lparr>state = [], spec = [], queue = [],
          root = ElementNode ''div'' [] [] [], rendered = []\<rparr> = ([] :: string list) \<and>
   updateState (\<lambda>s m. (s @ [m], if m = ''a'' then [''c''] else []))
       (\<lambda>s. [Element ''p'' [(''title'', concat s)] []])
       (enqueue ''b'' (enqueue ''a''
          \<lparr>state = [], spec = [], queue = [],
            root = ElementNode ''div'' [] [] [], rendered = []\<rparr>))
     = Inr \<lparr>state = [''a'', ''b''], spec = [Element ''p'' [(''title'', ''ab'')] []],
            queue = [''c''],
            root = ElementNode ''div'' [] [] [ElementNode ''p'' [(''title'', ''ab'')] [] []],
            rendered = [[''a'', ''b'']]\<rparr>"
proof -
  let ?c = "\<lparr>state = [], spec = [], queue = [] :: string list,
          root = ElementNode ''div'' [] [] [] :: string node, rendered = []\<rparr>"
  let ?view = "\<lambda>s. [Element ''p'' [(''title'', concat s)] []] :: string spec list"
  have q: "queue ?c = []" by simp
  have d: "draw ?view
             \<lparr>state = [''a'', ''b''], spec = [], queue = [''c''],
               root = ElementNode ''div'' [] [] [], rendered = []\<rparr>
     = Inr \<lparr>state = [''a'', ''b''], spec = [Element ''p'' [(''title'', ''ab'')] []],
            queue = [''c''],
            root = ElementNode ''div'' [] [] [ElementNode ''p'' [(''title'', ''ab'')] [] []],
            rendered = [[''a'', ''b'']]\<rparr>"
    by code_simp
  show ?thesis
    using updateState_batch [OF q, of "\<lambda>s m. (s @ [m], if m = ''a'' then [''c''] else [])"
        "''a''" "''b''" ?view] d
    by (simp add: Let_def)
qed

end
